theory Spec2Isabelle
  imports Main "HOL-Library.Word" "HOL-Library.Signed_Division"
begin

section \<open>Radar presence detector and CO2 reporter (test1\_esp\_working.cpp)\<close>

text \<open>
  The firmware keeps a fixed array \<open>samples\<close> of \<open>windowSize\<close> radar readings with a
  write cursor \<open>indexSample\<close>, counts the adjacent differences of the array every
  \<open>windowSize * sampleInterval\<close> milliseconds, and prints a verdict together with a CO2
  estimate. The embedding below follows the source line by line:
  \<^item> C \<open>int\<close> values are HOL integers; the counters of the program stay far below
    \<open>2 ^ 31\<close> (the transition count is at most the array length), so no signed
    operation of the program overflows and no wrap-around is written;
  \<^item> \<open>unsigned long\<close> time stamps are 32-bit words, whose subtraction wraps as in C;
  \<^item> C's \<open>/\<close> and \<open>%\<close> truncate towards zero: they are \<open>sdiv\<close> and \<open>smod\<close>;
  \<^item> an array access outside the array and a remainder by zero are error values;
  \<^item> the array length is a parameter \<open>N\<close> of every operation, and \<open>windowSize\<close> is the
    value the source fixes for it.
\<close>

subsection \<open>Constants\<close>

definition radarPin :: int where "radarPin = 23"
definition ledPin :: int where "ledPin = 2"
definition windowSize :: int where "windowSize = 100"
definition sampleInterval :: int where "sampleInterval = 100"
definition co2Pin :: int where "co2Pin = 34"

subsection \<open>Arrays and arithmetic with their failure cases\<close>

datatype error = OutOfBounds | DivisionByZero

text \<open>\<open>a[i]\<close> as an rvalue.\<close>

definition rd :: "int list \<Rightarrow> int \<Rightarrow> error + int" where
  "rd a i = (if 0 \<le> i \<and> i < int (length a) then Inr (a ! nat i) else Inl OutOfBounds)"

text \<open>\<open>a[i] = v\<close>.\<close>

definition wr :: "int list \<Rightarrow> int \<Rightarrow> int \<Rightarrow> error + int list" where
  "wr a i v = (if 0 \<le> i \<and> i < int (length a) then Inr (a[nat i := v]) else Inl OutOfBounds)"

text \<open>\<open>x % y\<close> on \<open>int\<close>: the remainder of the truncating division.\<close>

definition c_rem :: "int \<Rightarrow> int \<Rightarrow> error + int" where
  "c_rem x y = (if y = 0 then Inl DivisionByZero else Inr (x smod y))"

subsection \<open>The state of the program and what one iteration reads\<close>

datatype event =
    SerialPrint string
  | SerialPrintlnInt int
  | DigitalWrite int bool

record state =
  samples :: "int list"
  indexSample :: int
  lastCheck :: "32 word"
  trace :: "event list"

text \<open>
  The values the environment hands to one run of \<open>loop\<close>: \<open>digitalRead(radarPin)\<close>,
  \<open>analogRead(co2Pin)\<close>, and the two calls of \<open>millis()\<close> (the one compared in the
  condition and the one stored in \<open>lastCheck\<close>).
\<close>

record readings =
  radarVal :: int
  co2Raw :: int
  millisCheck :: "32 word"
  millisStore :: "32 word"

subsection \<open>setup\<close>

text \<open>\<open>for(int i = 0; i < windowSize; i++) samples[i] = 1;\<close>\<close>

function fill_ones :: "int \<Rightarrow> int list \<Rightarrow> int \<Rightarrow> error + int list" where
  "fill_ones N a i =
     (if i < N then
        (case wr a i 1 of
           Inl e \<Rightarrow> Inl e
         | Inr a' \<Rightarrow> fill_ones N a' (i + 1))
      else Inr a)"
  by pat_completeness auto
termination
  by (relation "measure (\<lambda>(N, a, i). nat (N - i))") auto

declare fill_ones.simps [simp del]

text \<open>
  The globals start from their static initialisers (a zeroed array, cursor 0, and
  \<open>lastCheck = 0\<close>); \<open>setup\<close> then fills the array. Its calls of \<open>Serial.begin\<close> and
  \<open>pinMode\<close> change nothing the program reads later and are left out.
\<close>

definition setup_fn :: "int \<Rightarrow> error + state" where
  "setup_fn N =
     (case fill_ones N (replicate (nat N) 0) 0 of
        Inl e \<Rightarrow> Inl e
      | Inr a \<Rightarrow> Inr \<lparr>samples = a, indexSample = 0, lastCheck = 0, trace = []\<rparr>)"

subsection \<open>checkBreathing\<close>

text \<open>
  The loop of lines 26 to 29, with the loop variable, \<open>prev\<close> and \<open>transitions\<close> as
  arguments. The body reads \<open>samples[i]\<close> twice, for the comparison and for
  \<open>prev\<close>; nothing is written in between, so the model reads it once.
\<close>

function count_loop :: "int \<Rightarrow> int list \<Rightarrow> int \<Rightarrow> int \<Rightarrow> int \<Rightarrow> error + int" where
  "count_loop N a i prev transitions =
     (if i < N then
        (case rd a i of
           Inl e \<Rightarrow> Inl e
         | Inr x \<Rightarrow> count_loop N a (i + 1) x (if x \<noteq> prev then transitions + 1 else transitions))
      else Inr transitions)"
  by pat_completeness auto
termination
  by (relation "measure (\<lambda>(N, a, i, prev, transitions). nat (N - i))") auto

declare count_loop.simps [simp del]

text \<open>Lines 24 to 29: the count the verdict is taken from.\<close>

definition countTransitions :: "int \<Rightarrow> int list \<Rightarrow> error + int" where
  "countTransitions N a =
     (case rd a 0 of
        Inl e \<Rightarrow> Inl e
      | Inr prev \<Rightarrow> count_loop N a 1 prev 0)"

text \<open>Line 30: \<open>transitions >= 3 && transitions <= 10\<close>.\<close>

definition isPresent :: "int \<Rightarrow> bool" where
  "isPresent transitions = (transitions \<ge> 3 \<and> transitions \<le> 10)"

definition checkBreathing :: "int \<Rightarrow> int list \<Rightarrow> error + bool" where
  "checkBreathing N a =
     (case countTransitions N a of
        Inl e \<Rightarrow> Inl e
      | Inr transitions \<Rightarrow> Inr (isPresent transitions))"

subsection \<open>The CO2 mapping\<close>

text \<open>
  Modelled from the spec: the library function \<open>map\<close> of the Arduino core, which the
  source calls and the repository does not contain. The spec gives it as
  \<open>out = outMin + (x - inMin) * (outMax - outMin) / (inMax - inMin)\<close> with a division
  that truncates towards zero and no clamping.
\<close>

definition map_long :: "int \<Rightarrow> int \<Rightarrow> int \<Rightarrow> int \<Rightarrow> int \<Rightarrow> int" where
  "map_long x in_min in_max out_min out_max =
     (x - in_min) * (out_max - out_min) sdiv (in_max - in_min) + out_min"

text \<open>Line 39: \<open>map(co2Raw, 0, 4095, 400, 2000)\<close>.\<close>

definition mapCo2 :: "int \<Rightarrow> int" where
  "mapCo2 rawAdcValue = map_long rawAdcValue 0 4095 400 2000"

subsection \<open>loop\<close>

text \<open>
  Line 42: \<open>millis() - lastCheck > windowSize * sampleInterval\<close>. The left side is an
  \<open>unsigned long\<close> difference; the right side is converted to \<open>unsigned long\<close> by the
  comparison.
\<close>

definition evaluationDue :: "32 word \<Rightarrow> 32 word \<Rightarrow> 32 word \<Rightarrow> bool" where
  "evaluationDue now lastEvaluationTimestamp periodMillis =
     (now - lastEvaluationTimestamp > periodMillis)"

definition periodMillis :: "int \<Rightarrow> 32 word" where
  "periodMillis N = word_of_int (N * sampleInterval)"

text \<open>Lines 35 and 36: the write at the cursor and the cursor's step.\<close>

definition insert_sample :: "int \<Rightarrow> int \<Rightarrow> state \<Rightarrow> error + state" where
  "insert_sample N v s =
     (case wr (samples s) (indexSample s) v of
        Inl e \<Rightarrow> Inl e
      | Inr a \<Rightarrow>
          (case c_rem (indexSample s + 1) N of
             Inl e \<Rightarrow> Inl e
           | Inr j \<Rightarrow> Inr (s\<lparr>samples := a, indexSample := j\<rparr>)))"

text \<open>Lines 45 to 53: what one evaluation writes, in program order.\<close>

definition report :: "bool \<Rightarrow> int \<Rightarrow> event list" where
  "report human co2ppm =
     (if human then [SerialPrint ''HUMAN,'', DigitalWrite ledPin True]
      else [SerialPrint ''NO HUMAN,'', DigitalWrite ledPin False])
     @ [SerialPrintlnInt co2ppm]"

definition loop :: "int \<Rightarrow> readings \<Rightarrow> state \<Rightarrow> error + state" where
  "loop N r s =
     (case insert_sample N (radarVal r) s of
        Inl e \<Rightarrow> Inl e
      | Inr s1 \<Rightarrow>
          (let co2ppm = mapCo2 (co2Raw r) in
           if evaluationDue (millisCheck r) (lastCheck s1) (periodMillis N) then
             (case checkBreathing N (samples s1) of
                Inl e \<Rightarrow> Inl e
              | Inr human \<Rightarrow>
                  Inr (s1\<lparr>lastCheck := millisStore r,
                          trace := trace s1 @ report human co2ppm\<rparr>))
           else Inr s1))"

text \<open>
  The program: \<open>setup\<close> once, then \<open>loop\<close> on each tuple of readings in turn. The
  closing \<open>delay(sampleInterval)\<close> of \<open>loop\<close> only lets time pass, which the next
  readings of \<open>millis()\<close> carry.
\<close>

fun run_loops :: "int \<Rightarrow> readings list \<Rightarrow> state \<Rightarrow> error + state" where
  "run_loops N [] s = Inr s"
| "run_loops N (r # rs) s =
     (case loop N r s of
        Inl e \<Rightarrow> Inl e
      | Inr s' \<Rightarrow> run_loops N rs s')"

subsection \<open>The text on the serial line\<close>

text \<open>
  Modelled from the spec: the printing functions of the Arduino core, which the
  repository does not contain. \<open>Serial.print\<close> of a string writes the string;
  \<open>Serial.println\<close> of an \<open>int\<close> writes its decimal digits, with a minus sign in front
  of a negative value, and then the line terminator \<open>eol\<close>.
\<close>

function digits :: "nat \<Rightarrow> string" where
  "digits n = (if n < 10 then [char_of (48 + n)] else digits (n div 10) @ [char_of (48 + n mod 10)])"
  by pat_completeness auto
termination
  by (relation "measure id") auto

declare digits.simps [simp del]

definition decimal :: "int \<Rightarrow> string" where
  "decimal k = (if k < 0 then CHR ''-'' # digits (nat (- k)) else digits (nat k))"

fun serial_text :: "string \<Rightarrow> event list \<Rightarrow> string" where
  "serial_text eol [] = []"
| "serial_text eol (SerialPrint s # es) = s @ serial_text eol es"
| "serial_text eol (SerialPrintlnInt k # es) = decimal k @ eol @ serial_text eol es"
| "serial_text eol (DigitalWrite p v # es) = serial_text eol es"

subsection \<open>The invariant of the buffer\<close>

definition buffer_ok :: "int \<Rightarrow> state \<Rightarrow> bool" where
  "buffer_ok N s = (int (length (samples s)) = N \<and> 0 \<le> indexSample s \<and> indexSample s < N)"

subsection \<open>Reference notions\<close>

text \<open>
  The count in the words of the specification: the number of positions \<open>i\<close> from 1 to
  the end of the sequence whose element differs from the element at \<open>i - 1\<close>.
\<close>

definition transitions_of :: "int list \<Rightarrow> int" where
  "transitions_of a = int (length (filter (\<lambda>i. a ! i \<noteq> a ! (i - 1)) [1..<length a]))"

text \<open>A run of insertions, the values in the order they arrive.\<close>

fun insert_all :: "int \<Rightarrow> int list \<Rightarrow> state \<Rightarrow> error + state" where
  "insert_all N [] s = Inr s"
| "insert_all N (v # vs) s =
     (case insert_sample N v s of
        Inl e \<Rightarrow> Inl e
      | Inr s' \<Rightarrow> insert_all N vs s')"

section \<open>Auxiliary facts\<close>

lemma rd_in: "0 \<le> i \<Longrightarrow> i < int (length a) \<Longrightarrow> rd a i = Inr (a ! nat i)"
  by (simp add: rd_def)

lemma wr_in: "0 \<le> i \<Longrightarrow> i < int (length a) \<Longrightarrow> wr a i v = Inr (a[nat i := v])"
  by (simp add: wr_def)

lemma count_loop_filter:
  "1 \<le> i \<Longrightarrow> i \<le> N \<Longrightarrow> int (length a) = N \<Longrightarrow> prev = a ! nat (i - 1) \<Longrightarrow>
   count_loop N a i prev t =
     Inr (t + int (length (filter (\<lambda>j. a ! j \<noteq> a ! (j - 1)) [nat i..<nat N])))"
proof (induction N a i prev t rule: count_loop.induct)
  case (1 N a i prev t)
  show ?case
  proof (cases "i < N")
    case False
    with "1.prems" have "i = N" by simp
    then show ?thesis by (simp add: count_loop.simps [of N a N])
  next
    case True
    have r: "rd a i = Inr (a ! nat i)"
      using True "1.prems" by (simp add: rd_in)
    have n: "nat (i + 1) = Suc (nat i)" "nat (i + 1 - 1) = nat i" "nat i - 1 = nat (i - 1)"
      using "1.prems" by simp_all
    have u: "[nat i..<nat N] = nat i # [Suc (nat i)..<nat N]"
      using True "1.prems" by (simp add: upt_conv_Cons)
    have ih: "count_loop N a (i + 1) (a ! nat i) (if a ! nat i \<noteq> prev then t + 1 else t) =
        Inr ((if a ! nat i \<noteq> prev then t + 1 else t)
             + int (length (filter (\<lambda>j. a ! j \<noteq> a ! (j - 1)) [Suc (nat i)..<nat N])))"
      using "1.IH" [OF True r] True "1.prems" n by simp
    show ?thesis
      apply (subst count_loop.simps)
      using True r ih "1.prems" n u by simp
  qed
qed


lemma countTransitions_eq:
  assumes "1 \<le> N" and "int (length a) = N"
  shows "countTransitions N a = Inr (transitions_of a)"
proof -
  have "rd a 0 = Inr (a ! 0)"
    using assms by (simp add: rd_def)
  moreover have "count_loop N a 1 (a ! 0) 0 =
      Inr (0 + int (length (filter (\<lambda>j. a ! j \<noteq> a ! (j - 1)) [nat 1..<nat N])))"
    using assms by (intro count_loop_filter) simp_all
  moreover have "nat N = length a"
    using assms by auto
  ultimately show ?thesis
    by (simp add: countTransitions_def transitions_of_def)
qed

lemma transitions_of_nonneg: "0 \<le> transitions_of a"
  by (simp add: transitions_of_def)

lemma transitions_of_le:
  assumes "a \<noteq> []"
  shows "transitions_of a \<le> int (length a) - 1"
proof -
  have "length (filter (\<lambda>i. a ! i \<noteq> a ! (i - 1)) [1..<length a]) \<le> length [1..<length a]"
    by (rule length_filter_le)
  also have "\<dots> = length a - 1"
    by simp
  finally have "int (length (filter (\<lambda>i. a ! i \<noteq> a ! (i - 1)) [1..<length a])) \<le> int (length a - 1)"
    by (simp only: of_nat_le_iff)
  moreover have "int (length a - 1) = int (length a) - 1"
    using assms by (cases a) simp_all
  ultimately show ?thesis
    by (simp only: transitions_of_def)
qed

lemma transitions_of_replicate: "transitions_of (replicate n v) = 0"
proof -
  have "filter (\<lambda>i. replicate n v ! i \<noteq> replicate n v ! (i - 1)) [1..<n] = []"
    by (auto simp add: filter_empty_conv)
  then show ?thesis
    by (simp add: transitions_of_def)
qed

lemma fill_ones_eq:
  "0 \<le> i \<Longrightarrow> i \<le> N \<Longrightarrow> int (length a) = N \<Longrightarrow>
   fill_ones N a i = Inr (take (nat i) a @ replicate (nat (N - i)) 1)"
proof (induction N a i rule: fill_ones.induct)
  case (1 N a i)
  show ?case
  proof (cases "i < N")
    case False
    with "1.prems" have "i = N" by simp
    then show ?thesis
      using "1.prems" by (simp add: fill_ones.simps [of N a N])
  next
    case True
    have w: "wr a i 1 = Inr (a[nat i := 1])"
      using True "1.prems" by (simp add: wr_in)
    have ih: "fill_ones N (a[nat i := 1]) (i + 1) =
        Inr (take (nat (i + 1)) (a[nat i := 1]) @ replicate (nat (N - (i + 1))) 1)"
      using "1.IH" [OF True w] True "1.prems" by simp
    have n: "nat (i + 1) = Suc (nat i)" "nat (N - i) = Suc (nat (N - (i + 1)))"
      using True "1.prems" by simp_all
    have l: "nat i < length a"
      using True "1.prems" by simp
    have "take (Suc (nat i)) (a[nat i := 1]) = take (nat i) a @ [1]"
      using l by (simp add: take_Suc_conv_app_nth)
    then show ?thesis
      apply (subst fill_ones.simps)
      using True w ih n by (simp add: replicate_app_Cons_same)
  qed
qed

lemma setup_fn_eq:
  assumes "0 \<le> N"
  shows "setup_fn N = Inr \<lparr>samples = replicate (nat N) 1, indexSample = 0, lastCheck = 0, trace = []\<rparr>"
proof -
  have "fill_ones N (replicate (nat N) 0) 0 = Inr (take (nat 0) (replicate (nat N) 0) @ replicate (nat (N - 0)) 1)"
    using assms by (intro fill_ones_eq) simp_all
  then show ?thesis
    by (simp add: setup_fn_def)
qed

lemma smod_nonneg: "0 \<le> x \<Longrightarrow> 0 < y \<Longrightarrow> x smod y = x mod (y::int)"
  by (cases "x = 0") (simp_all add: signed_modulo_int_def)

lemma insert_sample_eq:
  assumes "buffer_ok N s"
  shows "insert_sample N v s =
    Inr (s\<lparr>samples := (samples s)[nat (indexSample s) := v],
           indexSample := (indexSample s + 1) mod N\<rparr>)"
proof -
  have "wr (samples s) (indexSample s) v = Inr ((samples s)[nat (indexSample s) := v])"
    using assms by (simp add: buffer_ok_def wr_in)
  moreover have "c_rem (indexSample s + 1) N = Inr ((indexSample s + 1) mod N)"
    using assms by (simp add: buffer_ok_def c_rem_def smod_nonneg)
  ultimately show ?thesis
    by (simp add: insert_sample_def)
qed

lemma sdiv_nonneg: "0 \<le> x \<Longrightarrow> 0 < y \<Longrightarrow> x sdiv y = x div (y::int)"
  by (cases "x = 0") (simp_all add: signed_divide_int_def)

lemma sdiv_neg: "x < 0 \<Longrightarrow> 0 < y \<Longrightarrow> x sdiv y = - ((- x) div (y::int))"
  by (simp add: signed_divide_int_def)

lemma sdiv_mono:
  assumes "x \<le> y" and "0 < (d::int)"
  shows "x sdiv d \<le> y sdiv d"
proof (cases "0 \<le> x")
  case True
  then show ?thesis
    using assms by (simp add: sdiv_nonneg zdiv_mono1)
next
  case False
  then have x: "x < 0" by simp
  show ?thesis
  proof (cases "0 \<le> y")
    case True
    have "0 \<le> (- x) div d"
      using x assms(2) by (simp add: pos_imp_zdiv_nonneg_iff)
    moreover have "0 \<le> y div d"
      using True assms(2) by (simp add: pos_imp_zdiv_nonneg_iff)
    ultimately show ?thesis
      using x True assms(2) by (simp add: sdiv_nonneg sdiv_neg)
  next
    case False
    then have "(- y) div d \<le> (- x) div d"
      using assms by (intro zdiv_mono1) simp_all
    then show ?thesis
      using x False assms(2) by (simp add: sdiv_neg)
  qed
qed

lemma mapCo2_sdiv: "mapCo2 x = 400 + x * 1600 sdiv 4095"
  by (simp add: mapCo2_def map_long_def)

text \<open>
  For every reading of a 12-bit converter, and far beyond, the product that \<open>map\<close>
  forms fits the 32-bit \<open>long\<close> of the target, so the unbounded integers of the model
  compute what the machine computes.
\<close>

lemma map_product_fits_long:
  "- 1342177 \<le> x \<Longrightarrow> x \<le> 1342177 \<Longrightarrow> - (2 ^ 31) \<le> x * 1600 \<and> x * 1600 < (2 ^ 31 :: int)"
  by simp

lemma insert_all_snoc:
  "insert_all N (vs @ [v]) s =
     (case insert_all N vs s of Inl e \<Rightarrow> Inl e | Inr s' \<Rightarrow> insert_sample N v s')"
  by (induction vs arbitrary: s) (auto split: sum.splits)

lemma mod_differs:
  assumes "k < m" and "m - k < (n::nat)"
  shows "k mod n \<noteq> m mod n"
proof
  assume "k mod n = m mod n"
  then have "m mod n = k mod n"
    by simp
  moreover have "k \<le> m"
    using assms(1) by simp
  ultimately have "n dvd m - k"
    by (simp only: mod_eq_dvd_iff_nat)
  then have "n \<le> m - k"
    using assms(1) by (intro dvd_imp_le) simp_all
  then show False
    using assms(2) by simp
qed

lemma insert_all_window:
  assumes "buffer_ok N s0" and "indexSample s0 = 0"
  shows "\<exists>s'. insert_all N vs s0 = Inr s' \<and> buffer_ok N s'
           \<and> indexSample s' = int (length vs) mod N
           \<and> (\<forall>k < length vs. length vs - k \<le> nat N \<longrightarrow> samples s' ! (k mod nat N) = vs ! k)
           \<and> (\<forall>j < nat N. length vs \<le> j \<longrightarrow> samples s' ! j = samples s0 ! j)"
proof (induction vs rule: rev_induct)
  case Nil
  then show ?case
    using assms by simp
next
  case (snoc v vs)
  then obtain s1 where s1: "insert_all N vs s0 = Inr s1" "buffer_ok N s1"
      "indexSample s1 = int (length vs) mod N"
      "\<forall>k < length vs. length vs - k \<le> nat N \<longrightarrow> samples s1 ! (k mod nat N) = vs ! k"
      "\<forall>j < nat N. length vs \<le> j \<longrightarrow> samples s1 ! j = samples s0 ! j"
    by blast
  define n where "n = nat N"
  define m where "m = length vs"
  have n: "0 < n" "N = int n" "length (samples s1) = n"
    using s1(2) by (auto simp add: buffer_ok_def n_def)
  have c: "nat (indexSample s1) = m mod n"
    using s1(3) n by (simp add: m_def nat_mod_distrib flip: of_nat_mod)
  define s2 where "s2 = s1\<lparr>samples := (samples s1)[m mod n := v], indexSample := (indexSample s1 + 1) mod N\<rparr>"
  have step: "insert_all N (vs @ [v]) s0 = Inr s2"
    using s1(1,2) c by (simp add: insert_all_snoc insert_sample_eq s2_def)
  have ok: "buffer_ok N s2"
    using s1(2) by (simp add: s2_def buffer_ok_def)
  have idx: "indexSample s2 = int (length (vs @ [v])) mod N"
    using s1(3) by (simp add: s2_def mod_simps add.commute)
  have win: "samples s2 ! (k mod n) = (vs @ [v]) ! k"
    if "k < length (vs @ [v])" and "length (vs @ [v]) - k \<le> n" for k
  proof (cases "k = m")
    case True
    then show ?thesis
      using n by (simp add: s2_def m_def)
  next
    case False
    then have k: "k < m" "m - k < n"
      using that by (simp_all add: m_def)
    then have "k mod n \<noteq> m mod n"
      by (rule mod_differs)
    then have "samples s2 ! (k mod n) = samples s1 ! (k mod n)"
      by (simp add: s2_def)
    also have "\<dots> = vs ! k"
      using s1(4) k by (simp add: m_def n_def)
    finally show ?thesis
      using k by (simp add: nth_append m_def)
  qed
  have old: "samples s2 ! j = samples s0 ! j" if "j < n" and "length (vs @ [v]) \<le> j" for j
  proof -
    have "m < j" "m < n" using that by (simp_all add: m_def)
    then have "m mod n \<noteq> j" by simp
    then have "samples s2 ! j = samples s1 ! j"
      by (simp add: s2_def)
    then show ?thesis
      using s1(5) that by (simp add: n_def)
  qed
  show ?case
    using step ok idx win old unfolding n_def by blast
qed

lemma setup_fn_ok:
  assumes "1 \<le> N"
  shows "\<exists>s. setup_fn N = Inr s \<and> buffer_ok N s \<and> indexSample s = 0"
  using assms by (simp add: setup_fn_eq buffer_ok_def)

lemma checkBreathing_eq:
  assumes "1 \<le> N" and "int (length a) = N"
  shows "checkBreathing N a = Inr (isPresent (transitions_of a))"
  using assms by (simp add: checkBreathing_def countTransitions_eq)

lemma loop_eq:
  assumes "buffer_ok N s"
  shows "loop N r s =
    Inr (let s1 = s\<lparr>samples := (samples s)[nat (indexSample s) := radarVal r],
                     indexSample := (indexSample s + 1) mod N\<rparr> in
         if evaluationDue (millisCheck r) (lastCheck s) (periodMillis N)
         then s1\<lparr>lastCheck := millisStore r,
                 trace := trace s @ report (isPresent (transitions_of (samples s1))) (mapCo2 (co2Raw r))\<rparr>
         else s1)"
proof -
  have "1 \<le> N" "int (length ((samples s)[nat (indexSample s) := radarVal r])) = N"
    using assms by (simp_all add: buffer_ok_def)
  then have "checkBreathing N ((samples s)[nat (indexSample s) := radarVal r]) =
      Inr (isPresent (transitions_of ((samples s)[nat (indexSample s) := radarVal r])))"
    by (rule checkBreathing_eq)
  then show ?thesis
    using assms by (simp add: loop_def insert_sample_eq Let_def)
qed

lemma loop_ok:
  assumes "buffer_ok N s"
  shows "\<exists>s'. loop N r s = Inr s' \<and> buffer_ok N s'"
  using assms by (simp add: loop_eq Let_def) (simp add: buffer_ok_def)

lemma run_loops_ok:
  "buffer_ok N s \<Longrightarrow> \<exists>s'. run_loops N rs s = Inr s' \<and> buffer_ok N s'"
proof (induction rs arbitrary: s)
  case Nil
  then show ?case by simp
next
  case (Cons r rs)
  from loop_ok [OF Cons.prems, of r] obtain s1 where s1: "loop N r s = Inr s1" "buffer_ok N s1"
    by blast
  from Cons.IH [OF s1(2)] show ?case
    using s1(1) by simp
qed

lemma serial_text_report:
  "serial_text eol (report human co2ppm) =
     (if human then ''HUMAN,'' else ''NO HUMAN,'') @ decimal co2ppm @ eol"
  by (simp add: report_def)

text \<open>Reading the digits back gives the number: \<open>digits\<close> is the decimal numeral.\<close>

lemma digits_value:
  "foldl (\<lambda>acc c. 10 * acc + (of_char c - 48)) 0 (digits n) = n"
proof (induction n rule: digits.induct)
  case (1 n)
  show ?case
  proof (cases "n < 10")
    case True
    then show ?thesis
      by (subst digits.simps) simp
  next
    case False
    have "n mod 10 < 10" by simp
    then have "of_char (char_of (48 + n mod 10)) = 48 + n mod 10"
      by (simp add: of_char_of)
    then show ?thesis
      using False "1.IH" by (subst digits.simps) simp
  qed
qed

section \<open>Properties\<close>

text \<open>
  C1: on an array of \<open>N \<ge> 1\<close> samples \<open>countTransitions\<close> returns the number of
  positions from 1 to the end whose element differs from its predecessor; it returns 4
  on \<open>[1,1,0,0,1,1,0,1]\<close> and 0 on every array whose \<open>N\<close> elements are equal.
\<close>

theorem countTransitions_counts:
  "(1 \<le> N \<and> int (length a) = N \<longrightarrow>
      countTransitions N a =
        Inr (int (length (filter (\<lambda>i. a ! i \<noteq> a ! (i - 1)) [1..<length a]))))
   \<and> countTransitions 8 [1, 1, 0, 0, 1, 1, 0, 1] = Inr 4
   \<and> (1 \<le> N \<longrightarrow> countTransitions N (replicate (nat N) v) = Inr 0)"
proof (intro conjI impI)
  assume "1 \<le> N \<and> int (length a) = N"
  then show "countTransitions N a =
      Inr (int (length (filter (\<lambda>i. a ! i \<noteq> a ! (i - 1)) [1..<length a])))"
    using countTransitions_eq [of N a] by (simp add: transitions_of_def)
next
  show "countTransitions 8 [1, 1, 0, 0, 1, 1, 0, 1] = Inr 4"
    by code_simp
next
  assume "1 \<le> N"
  then show "countTransitions N (replicate (nat N) v) = Inr 0"
    using countTransitions_eq [of N "replicate (nat N) v"]
    by (simp add: transitions_of_replicate)
qed

theorem countTransitions_counts_witness:
  "(1::int) \<le> 3 \<and> int (length [0, 1, 0 :: int]) = 3
   \<and> countTransitions 3 [0, 1, 0] = Inr 2
   \<and> countTransitions 3 (replicate (nat 3) 7) = Inr 0"
  using countTransitions_counts [of 3 "[0, 1, 0]" 7]
  by (simp add: upt_rec)

text \<open>
  C2: the verdict on a transition count \<open>t\<close> is positive exactly for \<open>3 \<le> t \<le> 10\<close>;
  2 and 11 are rejected, 3 and 10 accepted.
\<close>

theorem isPresent_iff:
  "(isPresent t = (3 \<le> t \<and> t \<le> 10))
   \<and> isPresent 2 = False \<and> isPresent 3 = True \<and> isPresent 10 = True \<and> isPresent 11 = False"
  by (simp add: isPresent_def)

text \<open>
  C3: an evaluation is due exactly when \<open>now - lastEvaluationTimestamp\<close> is strictly
  greater than the period, the difference being the program's 32-bit unsigned one (the
  integer difference whenever the clock has not wrapped since the last evaluation).
  With the period 10000 of the source and the last evaluation at 1000, it is not due at
  11000 and due at 11001.
\<close>

theorem evaluationDue_strict:
  "evaluationDue now lastEvaluationTimestamp period = (now - lastEvaluationTimestamp > period)
   \<and> evaluationDue now lastEvaluationTimestamp period =
       ((uint now - uint lastEvaluationTimestamp) mod 2 ^ 32 > uint period)
   \<and> (lastEvaluationTimestamp \<le> now \<longrightarrow>
        evaluationDue now lastEvaluationTimestamp period =
          (uint now - uint lastEvaluationTimestamp > uint period))
   \<and> periodMillis windowSize = 10000
   \<and> evaluationDue 11000 1000 10000 = False
   \<and> evaluationDue 11001 1000 10000 = True"
proof (intro conjI impI)
  show "evaluationDue now lastEvaluationTimestamp period = (now - lastEvaluationTimestamp > period)"
    by (simp add: evaluationDue_def)
next
  show "evaluationDue now lastEvaluationTimestamp period =
       ((uint now - uint lastEvaluationTimestamp) mod 2 ^ 32 > uint period)"
    by (simp add: evaluationDue_def word_less_def uint_word_ariths)
next
  assume "lastEvaluationTimestamp \<le> now"
  then show "evaluationDue now lastEvaluationTimestamp period =
          (uint now - uint lastEvaluationTimestamp > uint period)"
    by (simp add: evaluationDue_def word_less_def uint_sub_if_size word_le_def)
next
  show "periodMillis windowSize = 10000"
    by (simp add: periodMillis_def windowSize_def sampleInterval_def)
next
  show "evaluationDue 11000 1000 10000 = False"
    by (simp add: evaluationDue_def)
next
  show "evaluationDue 11001 1000 10000 = True"
    by (simp add: evaluationDue_def)
qed

theorem evaluationDue_strict_witness:
  "(1000 :: 32 word) \<le> 11001
   \<and> evaluationDue 11001 1000 10000 = (uint (11001 :: 32 word) - uint (1000 :: 32 word) > uint (10000 :: 32 word))
   \<and> evaluationDue 11001 1000 10000"
  using evaluationDue_strict [of 11001 1000 10000]
  by simp

text \<open>
  C4: the CO2 estimate is \<open>400 + rawAdcValue * 1600 / 4095\<close> with the division
  truncating towards zero, for every integer input and without clamping: 400 at 0,
  2000 at 4095, 1200 at 2048, and values outside \<open>[400, 2000]\<close> for inputs outside
  \<open>[0, 4095]\<close>.
\<close>

theorem mapCo2_formula:
  "mapCo2 rawAdcValue = 400 + rawAdcValue * 1600 sdiv 4095
   \<and> (0 \<le> rawAdcValue \<longrightarrow> mapCo2 rawAdcValue = 400 + rawAdcValue * 1600 div 4095)
   \<and> (rawAdcValue < 0 \<longrightarrow> mapCo2 rawAdcValue = 400 - (- rawAdcValue) * 1600 div 4095)
   \<and> mapCo2 0 = 400 \<and> mapCo2 4095 = 2000 \<and> mapCo2 2048 = 1200
   \<and> mapCo2 8190 = 3600 \<and> mapCo2 (- 4095) = - 1200 \<and> mapCo2 (- 1) = 400"
proof -
  have a: "0 \<le> rawAdcValue \<longrightarrow> mapCo2 rawAdcValue = 400 + rawAdcValue * 1600 div 4095"
    by (simp add: mapCo2_sdiv sdiv_nonneg)
  have b: "rawAdcValue < 0 \<longrightarrow> mapCo2 rawAdcValue = 400 - (- rawAdcValue) * 1600 div 4095"
    by (simp add: mapCo2_sdiv sdiv_neg)
  have c: "mapCo2 0 = 400" "mapCo2 4095 = 2000" "mapCo2 2048 = 1200"
    "mapCo2 8190 = 3600" "mapCo2 (- 4095) = - 1200" "mapCo2 (- 1) = 400"
    by (simp_all add: mapCo2_sdiv signed_divide_int_def)
  show ?thesis
    using a b c mapCo2_sdiv [of rawAdcValue] by simp
qed

theorem mapCo2_formula_witness:
  "(0::int) \<le> 1000 \<and> mapCo2 1000 = 400 + 1000 * 1600 div 4095 \<and> mapCo2 1000 = 790
   \<and> (- 1000 :: int) < 0 \<and> mapCo2 (- 1000) = 400 - (- (- 1000)) * 1600 div 4095
   \<and> mapCo2 (- 1000) = 10"
  using mapCo2_formula [of 1000] mapCo2_formula [of "- 1000"]
  by simp

text \<open>
  C5: an insertion writes the value into the slot at the cursor and moves the cursor on
  by one modulo the capacity, and the array keeps its length. After any run of
  insertions from the initial buffer the \<open>k\<close>-th inserted value sits at index
  \<open>k mod N\<close>, for each of the last \<open>N\<close> values; so after exactly \<open>N\<close> insertions the
  array is the list of inserted values, no initial entry is left, and the cursor is
  back at 0.
\<close>

theorem insert_overwrites:
  "(buffer_ok N s \<longrightarrow>
      (\<exists>s'. insert_sample N v s = Inr s'
         \<and> samples s' = (samples s)[nat (indexSample s) := v]
         \<and> indexSample s' = (indexSample s + 1) mod N
         \<and> length (samples s') = length (samples s)))
   \<and> (1 \<le> N \<longrightarrow>
      (\<exists>s0 s'. setup_fn N = Inr s0 \<and> insert_all N vs s0 = Inr s'
         \<and> int (length (samples s')) = N
         \<and> indexSample s' = int (length vs) mod N
         \<and> (\<forall>k < length vs. length vs - k \<le> nat N \<longrightarrow> samples s' ! (k mod nat N) = vs ! k)))
   \<and> (1 \<le> N \<and> int (length vs) = N \<longrightarrow>
      (\<exists>s0 s'. setup_fn N = Inr s0 \<and> insert_all N vs s0 = Inr s'
         \<and> samples s' = vs \<and> indexSample s' = 0))"
proof -
  have one: "\<exists>s'. insert_sample N v s = Inr s'
         \<and> samples s' = (samples s)[nat (indexSample s) := v]
         \<and> indexSample s' = (indexSample s + 1) mod N
         \<and> length (samples s') = length (samples s)" if "buffer_ok N s"
    using that by (simp add: insert_sample_eq)
  have run: "\<exists>s0 s'. setup_fn N = Inr s0 \<and> insert_all N vs s0 = Inr s'
         \<and> int (length (samples s')) = N
         \<and> indexSample s' = int (length vs) mod N
         \<and> (\<forall>k < length vs. length vs - k \<le> nat N \<longrightarrow> samples s' ! (k mod nat N) = vs ! k)"
    if "1 \<le> N"
  proof -
    from setup_fn_ok [OF that] obtain s0 where s0: "setup_fn N = Inr s0" "buffer_ok N s0" "indexSample s0 = 0"
      by blast
    from insert_all_window [OF s0(2,3), of vs] obtain s' where
      "insert_all N vs s0 = Inr s'" "buffer_ok N s'" "indexSample s' = int (length vs) mod N"
      "\<forall>k < length vs. length vs - k \<le> nat N \<longrightarrow> samples s' ! (k mod nat N) = vs ! k"
      by blast
    then show ?thesis
      using s0(1) by (auto simp add: buffer_ok_def)
  qed
  have full: "\<exists>s0 s'. setup_fn N = Inr s0 \<and> insert_all N vs s0 = Inr s'
         \<and> samples s' = vs \<and> indexSample s' = 0"
    if "1 \<le> N \<and> int (length vs) = N"
  proof -
    from run that obtain s0 s' where r: "setup_fn N = Inr s0" "insert_all N vs s0 = Inr s'"
      "int (length (samples s')) = N" "indexSample s' = int (length vs) mod N"
      "\<forall>k < length vs. length vs - k \<le> nat N \<longrightarrow> samples s' ! (k mod nat N) = vs ! k"
      by blast
    have l: "length (samples s') = length vs" "nat N = length vs"
      using r(3) that by auto
    have "samples s' ! k = vs ! k" if "k < length vs" for k
      using r(5) that l by simp
    then have "samples s' = vs"
      using l(1) by (intro nth_equalityI) simp_all
    moreover have "indexSample s' = 0"
      using r(4) that by auto
    ultimately show ?thesis
      using r(1,2) by blast
  qed
  show ?thesis
    using one run full by blast
qed

theorem insert_overwrites_witness:
  "buffer_ok 3 \<lparr>samples = [1, 1, 1], indexSample = 2, lastCheck = 0, trace = []\<rparr>
   \<and> (\<exists>s'. insert_sample 3 0 \<lparr>samples = [1, 1, 1], indexSample = 2, lastCheck = 0, trace = []\<rparr> = Inr s'
        \<and> samples s' = [1, 1, 0] \<and> indexSample s' = 0)
   \<and> (1::int) \<le> 3 \<and> int (length [0, 1, 0 :: int]) = 3
   \<and> (\<exists>s0 s'. setup_fn 3 = Inr s0 \<and> insert_all 3 [0, 1, 0] s0 = Inr s'
        \<and> samples s' = [0, 1, 0] \<and> indexSample s' = 0)"
proof -
  let ?S = "\<lparr>samples = [1, 1, 1], indexSample = 2, lastCheck = 0, trace = []\<rparr>"
  note t = insert_overwrites [of 3 ?S 0 "[0, 1, 0]"]
  have h1: "buffer_ok 3 ?S"
    by (simp add: buffer_ok_def)
  have h2: "(1::int) \<le> 3 \<and> int (length [0, 1, 0 :: int]) = 3"
    by simp
  from t h1 have "\<exists>s'. insert_sample 3 0 ?S = Inr s'
         \<and> samples s' = (samples ?S)[nat (indexSample ?S) := 0]
         \<and> indexSample s' = (indexSample ?S + 1) mod 3
         \<and> length (samples s') = length (samples ?S)"
    by blast
  then have a: "\<exists>s'. insert_sample 3 0 ?S = Inr s' \<and> samples s' = [1, 1, 0] \<and> indexSample s' = 0"
    by auto
  from t h2 have b: "\<exists>s0 s'. setup_fn 3 = Inr s0 \<and> insert_all 3 [0, 1, 0] s0 = Inr s'
        \<and> samples s' = [0, 1, 0] \<and> indexSample s' = 0"
    by blast
  show ?thesis
    using h1 h2 a b by blast
qed

text \<open>
  C6: \<open>setup\<close> leaves an array of exactly \<open>N\<close> entries, all equal to 1, with the
  cursor at 0; on it \<open>countTransitions\<close> returns 0 and the verdict is negative, as
  \<open>isPresent 0\<close> is false.
\<close>

theorem setup_all_ones:
  "(0 \<le> N \<longrightarrow>
      setup_fn N = Inr \<lparr>samples = replicate (nat N) 1, indexSample = 0, lastCheck = 0, trace = []\<rparr>)
   \<and> (1 \<le> N \<longrightarrow>
      (\<exists>s. setup_fn N = Inr s \<and> int (length (samples s)) = N \<and> (\<forall>x \<in> set (samples s). x = 1)
         \<and> countTransitions N (samples s) = Inr 0 \<and> checkBreathing N (samples s) = Inr False))
   \<and> isPresent 0 = False"
proof (intro conjI impI)
  assume "0 \<le> N"
  then show "setup_fn N = Inr \<lparr>samples = replicate (nat N) 1, indexSample = 0, lastCheck = 0, trace = []\<rparr>"
    by (rule setup_fn_eq)
next
  assume n: "1 \<le> N"
  have c: "countTransitions N (replicate (nat N) 1) = Inr 0"
    using n countTransitions_eq [of N "replicate (nat N) 1"]
    by (simp add: transitions_of_replicate)
  show "\<exists>s. setup_fn N = Inr s \<and> int (length (samples s)) = N \<and> (\<forall>x \<in> set (samples s). x = 1)
         \<and> countTransitions N (samples s) = Inr 0 \<and> checkBreathing N (samples s) = Inr False"
    using n c by (simp add: setup_fn_eq checkBreathing_def isPresent_def)
next
  show "isPresent 0 = False"
    by (simp add: isPresent_def)
qed

theorem setup_all_ones_witness:
  "(0::int) \<le> windowSize \<and> (1::int) \<le> windowSize
   \<and> setup_fn windowSize = Inr \<lparr>samples = replicate 100 1, indexSample = 0, lastCheck = 0, trace = []\<rparr>
   \<and> (\<exists>s. setup_fn windowSize = Inr s \<and> int (length (samples s)) = windowSize
         \<and> (\<forall>x \<in> set (samples s). x = 1)
         \<and> countTransitions windowSize (samples s) = Inr 0
         \<and> checkBreathing windowSize (samples s) = Inr False)"
  using setup_all_ones [of windowSize]
  by (auto simp add: windowSize_def)

text \<open>
  C7: a run of \<open>loop\<close> writes to the serial line exactly when the evaluation is due;
  what it writes is \<open>HUMAN,\<close> if \<open>checkBreathing\<close> holds on the updated array and
  \<open>NO HUMAN,\<close> otherwise, then at once the decimal digits of the CO2 estimate, then
  the line terminator, and nothing else. A run whose evaluation is not due writes
  nothing.
\<close>

theorem loop_emits:
  "buffer_ok N s \<longrightarrow>
     (\<exists>s' new. loop N r s = Inr s' \<and> trace s' = trace s @ new
        \<and> (if evaluationDue (millisCheck r) (lastCheck s) (periodMillis N)
            then \<exists>human. checkBreathing N (samples s') = Inr human
                   \<and> serial_text eol new =
                       (if human then ''HUMAN,'' else ''NO HUMAN,'')
                       @ decimal (mapCo2 (co2Raw r)) @ eol
            else new = []))"
proof
  assume ok: "buffer_ok N s"
  define a where "a = (samples s)[nat (indexSample s) := radarVal r]"
  have cb: "checkBreathing N a = Inr (isPresent (transitions_of a))"
    using ok by (intro checkBreathing_eq) (simp_all add: buffer_ok_def a_def)
  show "\<exists>s' new. loop N r s = Inr s' \<and> trace s' = trace s @ new
        \<and> (if evaluationDue (millisCheck r) (lastCheck s) (periodMillis N)
            then \<exists>human. checkBreathing N (samples s') = Inr human
                   \<and> serial_text eol new =
                       (if human then ''HUMAN,'' else ''NO HUMAN,'')
                       @ decimal (mapCo2 (co2Raw r)) @ eol
            else new = [])"
  proof (cases "evaluationDue (millisCheck r) (lastCheck s) (periodMillis N)")
    case True
    then show ?thesis
      using cb by (simp add: loop_eq [OF ok] Let_def a_def serial_text_report)
  next
    case False
    then show ?thesis
      by (simp add: loop_eq [OF ok] Let_def)
  qed
qed

theorem loop_emits_witness:
  "buffer_ok 4 \<lparr>samples = [1, 0, 1, 1], indexSample = 3, lastCheck = 0, trace = []\<rparr>
   \<and> (\<exists>s' new. loop 4 \<lparr>radarVal = 0, co2Raw = 2048, millisCheck = 401, millisStore = 402\<rparr>
                   \<lparr>samples = [1, 0, 1, 1], indexSample = 3, lastCheck = 0, trace = []\<rparr> = Inr s'
          \<and> trace s' = [] @ new
          \<and> serial_text [CHR 0x0A] new = ''HUMAN,1200'' @ [CHR 0x0A])"
proof -
  let ?S = "\<lparr>samples = [1, 0, 1, 1], indexSample = 3, lastCheck = 0, trace = []\<rparr>"
  let ?R = "\<lparr>radarVal = 0, co2Raw = 2048, millisCheck = 401, millisStore = 402\<rparr>"
  note t = loop_emits [of 4 ?S ?R "[CHR 0x0A]"]
  have h: "buffer_ok 4 ?S"
    by (simp add: buffer_ok_def)
  have due: "evaluationDue (millisCheck ?R) (lastCheck ?S) (periodMillis 4)"
    by (simp add: evaluationDue_def periodMillis_def sampleInterval_def)
  from t h due obtain s' new human where
    l: "loop 4 ?R ?S = Inr s'" "trace s' = trace ?S @ new"
       "checkBreathing 4 (samples s') = Inr human"
       "serial_text [CHR 0x0A] new =
          (if human then ''HUMAN,'' else ''NO HUMAN,'') @ decimal (mapCo2 (co2Raw ?R)) @ [CHR 0x0A]"
    by auto
  have "samples s' = [1, 0, 1, 0]"
    using l(1) by (auto simp add: loop_eq [OF h] Let_def)
  moreover have "checkBreathing 4 [1, 0, 1, 0] = Inr True"
    by code_simp
  ultimately have "human"
    using l(3) by simp
  moreover have "decimal (mapCo2 2048) = ''1200''"
    by code_simp
  ultimately have "serial_text [CHR 0x0A] new = ''HUMAN,1200'' @ [CHR 0x0A]"
    using l(4) by simp
  then show ?thesis
    using h l(1,2) by simp
qed

text \<open>
  C8: \<open>setup\<close> establishes, and every run of \<open>loop\<close> preserves, that the array has
  \<open>N\<close> entries and the cursor lies in \<open>[0, N)\<close>; under it neither the write at the
  cursor nor any read of the count fails, so the program started by \<open>setup\<close> never
  reaches an error value, whatever it reads and however long it runs.
\<close>

theorem cursor_in_range:
  "(1 \<le> N \<longrightarrow> (\<exists>s. setup_fn N = Inr s \<and> buffer_ok N s))
   \<and> (buffer_ok N s \<longrightarrow> (\<exists>s'. loop N r s = Inr s' \<and> buffer_ok N s'))
   \<and> (1 \<le> N \<longrightarrow> (\<exists>s0 s'. setup_fn N = Inr s0 \<and> run_loops N rs s0 = Inr s' \<and> buffer_ok N s'))
   \<and> (\<exists>s0 s'. setup_fn windowSize = Inr s0 \<and> run_loops windowSize rs s0 = Inr s'
         \<and> length (samples s') = 100 \<and> 0 \<le> indexSample s' \<and> indexSample s' < 100)"
proof -
  have run: "\<exists>s0 s'. setup_fn M = Inr s0 \<and> run_loops M rs s0 = Inr s' \<and> buffer_ok M s'"
    if "1 \<le> M" for M
  proof -
    from setup_fn_ok [OF that] obtain s0 where s0: "setup_fn M = Inr s0" "buffer_ok M s0"
      by blast
    from run_loops_ok [OF s0(2), of rs] show ?thesis
      using s0(1) by blast
  qed
  have "\<exists>s0 s'. setup_fn windowSize = Inr s0 \<and> run_loops windowSize rs s0 = Inr s'
         \<and> length (samples s') = 100 \<and> 0 \<le> indexSample s' \<and> indexSample s' < 100"
    using run [of windowSize] by (auto simp add: windowSize_def buffer_ok_def)
  then show ?thesis
    using run [of N] setup_fn_ok [of N] loop_ok [of N s r] by blast
qed

theorem cursor_in_range_witness:
  "(1::int) \<le> 3
   \<and> buffer_ok 3 \<lparr>samples = [1, 0, 1], indexSample = 2, lastCheck = 0, trace = []\<rparr>
   \<and> (\<exists>s'. loop 3 \<lparr>radarVal = 0, co2Raw = 2048, millisCheck = 301, millisStore = 302\<rparr>
               \<lparr>samples = [1, 0, 1], indexSample = 2, lastCheck = 0, trace = []\<rparr> = Inr s'
          \<and> buffer_ok 3 s')
   \<and> (\<exists>s0 s'. setup_fn 3 = Inr s0
          \<and> run_loops 3 [\<lparr>radarVal = 0, co2Raw = 2048, millisCheck = 301, millisStore = 302\<rparr>] s0 = Inr s'
          \<and> buffer_ok 3 s')"
proof -
  let ?S = "\<lparr>samples = [1, 0, 1], indexSample = 2, lastCheck = 0, trace = []\<rparr>"
  let ?R = "\<lparr>radarVal = 0, co2Raw = 2048, millisCheck = 301, millisStore = 302\<rparr>"
  note t = cursor_in_range [of 3 ?S ?R "[?R]"]
  have h: "buffer_ok 3 ?S"
    by (simp add: buffer_ok_def)
  show ?thesis
    using t h by simp
qed

text \<open>
  C9: on an array of \<open>N \<ge> 1\<close> arbitrary values the transition count lies between 0
  and \<open>N - 1\<close>; with the window size of the source it never exceeds 99.
\<close>

theorem countTransitions_range:
  "(1 \<le> N \<and> int (length a) = N \<longrightarrow>
      (\<exists>t. countTransitions N a = Inr t \<and> 0 \<le> t \<and> t \<le> N - 1))
   \<and> (length a = 100 \<longrightarrow>
      (\<exists>t. countTransitions windowSize a = Inr t \<and> 0 \<le> t \<and> t \<le> 99))"
proof -
  have g: "\<exists>t. countTransitions M b = Inr t \<and> 0 \<le> t \<and> t \<le> M - 1"
    if "1 \<le> M" and "int (length b) = M" for M b
  proof -
    have "b \<noteq> []" using that by auto
    then have "transitions_of b \<le> M - 1"
      using transitions_of_le [of b] that by simp
    then show ?thesis
      using that by (simp add: countTransitions_eq transitions_of_nonneg)
  qed
  show ?thesis
    using g [of N a] g [of windowSize a] by (simp add: windowSize_def)
qed

theorem countTransitions_range_witness:
  "(1::int) \<le> 4 \<and> int (length [0, 1, 0, 1 :: int]) = 4
   \<and> (\<exists>t. countTransitions 4 [0, 1, 0, 1] = Inr t \<and> 0 \<le> t \<and> t \<le> 4 - 1)
   \<and> length (replicate 100 (5::int)) = 100
   \<and> (\<exists>t. countTransitions windowSize (replicate 100 5) = Inr t \<and> 0 \<le> t \<and> t \<le> 99)"
  using countTransitions_range [of 4 "[0, 1, 0, 1]"] countTransitions_range [of 100 "replicate 100 5"]
  by simp

text \<open>
  C10: the CO2 estimate never decreases when its input grows, and for an input in
  \<open>[0, 4095]\<close> it lies in \<open>[400, 2000]\<close>.
\<close>

theorem mapCo2_monotone_range:
  "(a \<le> b \<longrightarrow> mapCo2 a \<le> mapCo2 b)
   \<and> (0 \<le> r \<and> r \<le> 4095 \<longrightarrow> 400 \<le> mapCo2 r \<and> mapCo2 r \<le> 2000)"
proof -
  have mono: "mapCo2 x \<le> mapCo2 y" if "x \<le> y" for x y
  proof -
    have "x * 1600 sdiv 4095 \<le> y * 1600 sdiv 4095"
      using that by (intro sdiv_mono) simp_all
    then show ?thesis
      by (simp add: mapCo2_sdiv)
  qed
  have ends: "mapCo2 0 = 400" "mapCo2 4095 = 2000"
    by (simp_all add: mapCo2_sdiv signed_divide_int_def)
  have "400 \<le> mapCo2 r \<and> mapCo2 r \<le> 2000" if "0 \<le> r \<and> r \<le> 4095"
    using that mono [of 0 r] mono [of r 4095] ends by simp
  then show ?thesis
    using mono [of a b] by blast
qed

theorem mapCo2_monotone_range_witness:
  "(2047::int) \<le> 2048 \<and> mapCo2 2047 \<le> mapCo2 2048
   \<and> (0::int) \<le> 2048 \<and> (2048::int) \<le> 4095 \<and> 400 \<le> mapCo2 2048 \<and> mapCo2 2048 \<le> 2000"
  using mapCo2_monotone_range [of 2047 2048 2048]
  by simp

end
